theory Spec2Isabelle
  imports Main "HOL-Library.Char_ord" "HOL-Library.List_Lexorder"
begin

section \<open>Memory: buffers, pointers, undefined behaviour\<close>

text \<open>
  \<^verbatim>\<open>KeyValue.h\<close> passes bytes around through \<^verbatim>\<open>const char*\<close> pointers that borrow
  somebody else's buffer. A buffer is a block of bytes; the store is the list of the
  blocks allocated so far, and a block is named by its index in that list. A pointer is
  either null or a block together with an offset into it. Bytes are \<^typ>\<open>char\<close>
  (eight bits), a \<^verbatim>\<open>std::string\<close> value is a \<^typ>\<open>string\<close>.

  Reading through a null pointer or outside a block is undefined behaviour in C++; the
  model makes it a value of type \<open>fault\<close>.
\<close>

datatype pointer = nullptr | Ptr nat nat

type_synonym store = "string list"

datatype fault = NullDereference | OutOfBounds

text \<open>\<^verbatim>\<open>std::string(p, n)\<close>: copy the \<open>n\<close> bytes starting at \<open>p\<close>.\<close>

definition read_bytes :: "store \<Rightarrow> pointer \<Rightarrow> nat \<Rightarrow> fault + string" where
  "read_bytes st p n =
     (case p of
        nullptr \<Rightarrow> Inl NullDereference
      | Ptr b off \<Rightarrow>
          if b < length st \<and> off + n \<le> length (st ! b)
          then Inr (take n (drop off (st ! b)))
          else Inl OutOfBounds)"

text \<open>
  \<^verbatim>\<open>strlen\<close>: the number of bytes before the first NUL byte. The scan leaves the
  block when the block holds no NUL at or after the pointer.
\<close>

fun scan_nul :: "string \<Rightarrow> nat option" where
  "scan_nul [] = None"
| "scan_nul (c # cs) = (if c = CHR 0x00 then Some 0 else map_option Suc (scan_nul cs))"

definition strlen :: "store \<Rightarrow> pointer \<Rightarrow> fault + nat" where
  "strlen st p =
     (case p of
        nullptr \<Rightarrow> Inl NullDereference
      | Ptr b off \<Rightarrow>
          if b < length st
          then (case scan_nul (drop off (st ! b)) of
                  None \<Rightarrow> Inl OutOfBounds
                | Some n \<Rightarrow> Inr n)
          else Inl OutOfBounds)"

text \<open>
  A \<^verbatim>\<open>std::string\<close> object as the constructor \<^verbatim>\<open>Data(const std::string&)\<close> sees it:
  what \<^verbatim>\<open>s.data()\<close> and \<^verbatim>\<open>s.size()\<close> return.
\<close>

record std_string =
  s_data :: pointer
  s_size :: nat


section \<open>\<^verbatim>\<open>struct Data\<close>: a read-only slice of data in memory\<close>

text \<open>
  \<^verbatim>\<open>const char* data = nullptr; const size_t size = 0;\<close> The field \<^verbatim>\<open>size\<close> is called
  \<open>size_D\<close> here. The struct declares three constructors, each of which initialises
  both fields. The default member initialisers are the fields of a view of no source: a
  null pointer and size 0, which is what \<^verbatim>\<open>Data(nullptr, 0)\<close> builds.
\<close>

record Data =
  data :: pointer
  size_D :: nat

text \<open>\<^verbatim>\<open>Data(const char* data_, size_t size_) : data(data_), size(size_) {}\<close>\<close>

definition Data_ptr :: "pointer \<Rightarrow> nat \<Rightarrow> Data" where
  "Data_ptr data' size' = \<lparr>data = data', size_D = size'\<rparr>"

text \<open>\<^verbatim>\<open>Data(const char* cstr) : data(cstr), size(strlen(cstr)) {}\<close>\<close>

definition Data_cstr :: "store \<Rightarrow> pointer \<Rightarrow> fault + Data" where
  "Data_cstr st cstr =
     (case strlen st cstr of
        Inl f \<Rightarrow> Inl f
      | Inr n \<Rightarrow> Inr \<lparr>data = cstr, size_D = n\<rparr>)"

text \<open>\<^verbatim>\<open>Data(const std::string& s) : data(s.data()), size(s.size()) {}\<close>\<close>

definition Data_string :: "std_string \<Rightarrow> Data" where
  "Data_string s = \<lparr>data = s_data s, size_D = s_size s\<rparr>"

text \<open>
  \<^verbatim>\<open>std::string str() const\<close>: a copy of the viewed bytes when the pointer is set, the
  empty string otherwise.
\<close>

definition str :: "store \<Rightarrow> Data \<Rightarrow> fault + string" where
  "str st d =
     (if data d \<noteq> nullptr
      then read_bytes st (data d) (size_D d)
      else Inr [])"

text \<open>
  The pointer \<open>p\<close> addresses the bytes \<open>s\<close> followed by a NUL byte, and no byte of
  \<open>s\<close> is NUL: a null-terminated byte sequence.
\<close>

definition c_string_at :: "store \<Rightarrow> pointer \<Rightarrow> string \<Rightarrow> bool" where
  "c_string_at st p s =
     (case p of
        nullptr \<Rightarrow> False
      | Ptr b off \<Rightarrow>
          b < length st \<and> CHR 0x00 \<notin> set s \<and>
          take (length s + 1) (drop off (st ! b)) = s @ [CHR 0x00])"


section \<open>Status\<close>

text \<open>
  Modelled from the spec: the type \<^verbatim>\<open>Status\<close> of \<^verbatim>\<open>data.h\<close>, which is not among the
  sources. The spec's error taxonomy has \<open>OK\<close>, \<open>NotFound\<close>, \<open>Exists\<close> and
  \<open>Invalid\<close> (any other failure); \<^verbatim>\<open>ok()\<close> holds of \<open>OK\<close> alone.
\<close>

datatype Status = OK | NotFound | Exists | Invalid

definition ok :: "Status \<Rightarrow> bool" where
  "ok s = (s = OK)"


section \<open>\<^verbatim>\<open>class Reader\<close>: the derived \<^verbatim>\<open>get\<close>\<close>

text \<open>\<^verbatim>\<open>using CollectionHandle = void*;\<close> an opaque token.\<close>

type_synonym CollectionHandle = nat

text \<open>
  \<^verbatim>\<open>get0\<close> is pure virtual, so \<^verbatim>\<open>get\<close> takes it as a parameter. A call of
  \<^verbatim>\<open>get0(coll, key, v)\<close> with \<open>v\<close> a null \<^verbatim>\<open>shared_ptr\<close> returns a status, leaves
  \<open>v\<close> null (\<open>None\<close>) or pointing to a \<^verbatim>\<open>Data\<close>, and may have allocated buffers.
\<close>

type_synonym get0_fn =
  "CollectionHandle \<Rightarrow> string \<Rightarrow> store \<Rightarrow> Status \<times> Data option \<times> store"

text \<open>
  \<^verbatim>\<open>
  virtual Status get(CollectionHandle coll, const std::string& key,
                     std::string& value) const {
      std::shared_ptr<Data> v;
      Status s = get0(coll, key, v);
      if (s.ok()) {
          value = v->str();
      }
      return s;
  }\<close>
  The result is the status, the caller's \<open>value\<close> after the call, and the store.
  \<^verbatim>\<open>v->str()\<close> on a null \<open>v\<close> is a null dereference.
\<close>

definition get ::
  "get0_fn \<Rightarrow> CollectionHandle \<Rightarrow> string \<Rightarrow> string \<Rightarrow> store \<Rightarrow> fault + (Status \<times> string \<times> store)"
where
  "get get0 coll key val st =
     (case get0 coll key st of
        (s, v, st') \<Rightarrow>
          if ok s
          then (case v of
                  None \<Rightarrow> Inl NullDereference
                | Some d \<Rightarrow>
                    (case str st' d of
                       Inl f \<Rightarrow> Inl f
                     | Inr bytes \<Rightarrow> Inr (s, bytes, st')))
          else Inr (s, val, st'))"


section \<open>A storage engine behind the interface\<close>

text \<open>
  Every member of \<^verbatim>\<open>Iterator\<close>, \<^verbatim>\<open>WriteBatch\<close> and \<^verbatim>\<open>DB\<close>, and \<^verbatim>\<open>get0\<close> and
  \<^verbatim>\<open>iterator\<close> of \<^verbatim>\<open>Reader\<close>, is pure virtual in \<^verbatim>\<open>KeyValue.h\<close>, and the default
  \<^verbatim>\<open>DB::get0\<close>, \<^verbatim>\<open>DB::iterator\<close> and \<^verbatim>\<open>DB::put\<close> are only declared there. The
  definitions of this section are written from the spec's description of them.
\<close>

text \<open>
  Modelled from the spec: the records of one collection, which no source file
  represents. A record is a (key, value) pair; keys are unique within a collection and
  ordered byte by byte, which is the order of \<^typ>\<open>string\<close> here. The records are kept
  in key order.
\<close>

type_synonym records = "(string \<times> string) list"

text \<open>
  Modelled from the spec: writing one record into a collection (the effect of a
  committed \<^verbatim>\<open>put\<close>; the backend's code is not among the sources). At most one value is
  associated with a key, so a write to a key already there replaces its value.
\<close>

fun upsert :: "string \<Rightarrow> string \<Rightarrow> records \<Rightarrow> records" where
  "upsert k v [] = [(k, v)]"
| "upsert k v (r # rs) =
     (if fst r < k then r # upsert k v rs
      else if fst r = k then (k, v) # rs
      else (k, v) # r # rs)"

text \<open>
  Modelled from the spec: the state of a database, whose class \<^verbatim>\<open>DB\<close> is abstract in
  the source. It holds named collections; a \<^verbatim>\<open>CollectionHandle\<close> is the position of
  the collection in the list, in the order of creation.
\<close>

record DB =
  collections :: "(string \<times> records) list"

text \<open>
  Modelled from the spec: a database in which no collection has been created yet (the
  source has no constructor of \<^verbatim>\<open>DB\<close>).
\<close>

definition empty_DB :: DB where
  "empty_DB = \<lparr>collections = []\<rparr>"

text \<open>The position of the first occurrence of a name in a list of names.\<close>

fun index_of :: "string \<Rightarrow> string list \<Rightarrow> nat option" where
  "index_of name [] = None"
| "index_of name (n # ns) = (if n = name then Some 0 else map_option Suc (index_of name ns))"

text \<open>
  Modelled from the spec: \<^verbatim>\<open>DB::collection\<close> (pure virtual in the source) resolves a
  name to a handle and fails with \<open>NotFound\<close> if the name is unknown.
\<close>

definition collection :: "string \<Rightarrow> DB \<Rightarrow> Status \<times> CollectionHandle option" where
  "collection name db =
     (case index_of name (map fst (collections db)) of
        None \<Rightarrow> (NotFound, None)
      | Some h \<Rightarrow> (OK, Some h))"

text \<open>
  Modelled from the spec: \<^verbatim>\<open>DB::create_collection\<close> (pure virtual in the source)
  creates a new empty collection and fails with \<open>Exists\<close> if the name is already bound.
\<close>

definition create_collection :: "string \<Rightarrow> DB \<Rightarrow> Status \<times> DB" where
  "create_collection name db =
     (if name \<in> set (map fst (collections db))
      then (Exists, db)
      else (OK, db\<lparr>collections := collections db @ [(name, [])]\<rparr>))"

text \<open>
  Modelled from the spec: a snapshot \<^verbatim>\<open>Reader\<close> (the class is abstract in the source)
  is bound at creation to a point-in-time state of all collections.
\<close>

datatype Reader = Snapshot "records list"

text \<open>
  Modelled from the spec: \<^verbatim>\<open>DB::current\<close> (pure virtual in the source) produces a
  Reader fixed to the state of all collections as of the call.
\<close>

definition current :: "DB \<Rightarrow> Status \<times> Reader" where
  "current db = (OK, Snapshot (map snd (collections db)))"

text \<open>
  Modelled from the spec: \<^verbatim>\<open>Reader::get0\<close> (pure virtual in the source) looks the key
  up in the collection; it succeeds with the value buffer if the key is present and
  fails with \<open>NotFound\<close> if it is absent (or the collection does not exist). The buffer
  is a block of its own, which the returned \<^verbatim>\<open>Data\<close> views from its start.
\<close>

fun Reader_get0 :: "Reader \<Rightarrow> get0_fn" where
  "Reader_get0 (Snapshot cs) coll key st =
     (if coll < length cs
      then (case map_of (cs ! coll) key of
              None \<Rightarrow> (NotFound, None, st)
            | Some v \<Rightarrow>
                (OK, Some \<lparr>data = Ptr (length st) 0, size_D = length v\<rparr>, st @ [v]))
      else (NotFound, None, st))"

text \<open>
  Modelled from the spec: an \<^verbatim>\<open>Iterator\<close> (all its members are pure virtual in the
  source) is a cursor over the records of one collection in key order. It holds the
  records from its position on.
\<close>

datatype Iterator = Iterator (remaining: records)

text \<open>
  Modelled from the spec: \<^verbatim>\<open>Iterator::valid\<close> (pure virtual in the source) says
  whether the iterator is positioned at a record.
\<close>

definition Iterator_valid :: "Iterator \<Rightarrow> bool" where
  "Iterator_valid it = (remaining it \<noteq> [])"

text \<open>
  Modelled from the spec: \<^verbatim>\<open>Iterator::key\<close> and \<^verbatim>\<open>Iterator::value\<close> (pure virtual in
  the source) are defined only when \<^verbatim>\<open>valid()\<close> holds; the result here is the bytes that
  the returned view shows, and \<open>None\<close> stands for the undefined case.
\<close>

definition Iterator_key :: "Iterator \<Rightarrow> string option" where
  "Iterator_key it = (case remaining it of [] \<Rightarrow> None | r # rs \<Rightarrow> Some (fst r))"

definition Iterator_value :: "Iterator \<Rightarrow> string option" where
  "Iterator_value it = (case remaining it of [] \<Rightarrow> None | r # rs \<Rightarrow> Some (snd r))"

text \<open>
  Modelled from the spec: \<^verbatim>\<open>Iterator::next\<close> (pure virtual in the source) advances to
  the next record in key order; at the end of the collection it reports success and
  leaves \<^verbatim>\<open>valid()\<close> false.
\<close>

definition Iterator_next :: "Iterator \<Rightarrow> Status \<times> Iterator" where
  "Iterator_next it = (OK, Iterator (drop 1 (remaining it)))"

text \<open>
  Modelled from the spec: \<^verbatim>\<open>Reader::iterator\<close> (pure virtual in the source) positions
  at the first key greater than or equal to the start key; if there is none it returns
  success with an iterator that is not valid. An unknown collection is \<open>NotFound\<close>.
\<close>

fun Reader_iterator :: "Reader \<Rightarrow> CollectionHandle \<Rightarrow> string \<Rightarrow> Status \<times> Iterator option" where
  "Reader_iterator (Snapshot cs) coll key =
     (if coll < length cs
      then (OK, Some (Iterator (dropWhile (\<lambda>r. fst r < key) (cs ! coll))))
      else (NotFound, None))"

text \<open>
  Modelled from the spec: a \<^verbatim>\<open>WriteBatch\<close> (abstract in the source) is an ordered list
  of pending (collection, key, value) puts.
\<close>

record WriteBatch =
  pending :: "(CollectionHandle \<times> string \<times> string) list"

text \<open>
  Modelled from the spec: \<^verbatim>\<open>DB::begin_writes\<close> (pure virtual in the source) produces
  a fresh, empty Write Batch.
\<close>

definition begin_writes :: "DB \<Rightarrow> Status \<times> WriteBatch" where
  "begin_writes db = (OK, \<lparr>pending = []\<rparr>)"

text \<open>
  Modelled from the spec: \<^verbatim>\<open>WriteBatch::put\<close> (pure virtual in the source) stages a
  write, which does not take effect until \<^verbatim>\<open>commit\<close>. The bytes that the \<^verbatim>\<open>Data\<close>
  argument views are copied into the batch.
\<close>

definition WriteBatch_put ::
  "CollectionHandle \<Rightarrow> string \<Rightarrow> Data \<Rightarrow> store \<Rightarrow> WriteBatch \<Rightarrow> fault + (Status \<times> WriteBatch)"
where
  "WriteBatch_put coll key val st wb =
     (case str st val of
        Inl f \<Rightarrow> Inl f
      | Inr bytes \<Rightarrow> Inr (OK, wb\<lparr>pending := pending wb @ [(coll, key, bytes)]\<rparr>))"

text \<open>
  Modelled from the spec: the effect of one staged write on the collections (the
  backend's code is not among the sources).
\<close>

definition apply_put :: "(string \<times> records) list \<Rightarrow> CollectionHandle \<times> string \<times> string \<Rightarrow> (string \<times> records) list" where
  "apply_put cs w =
     (case w of (coll, key, v) \<Rightarrow>
        if coll < length cs
        then cs[coll := (fst (cs ! coll), upsert key v (snd (cs ! coll)))]
        else cs)"

text \<open>
  Modelled from the spec: \<^verbatim>\<open>WriteBatch::commit\<close> (pure virtual in the source) applies
  all staged writes as a single unit, in the order they were staged. A batch that names
  a collection the database does not have is malformed input: the status is
  \<open>Invalid\<close> and nothing is applied.
\<close>

definition commit :: "WriteBatch \<Rightarrow> DB \<Rightarrow> Status \<times> DB" where
  "commit wb db =
     (if list_all (\<lambda>w. fst w < length (collections db)) (pending wb)
      then (OK, db\<lparr>collections := foldl apply_put (collections db) (pending wb)\<rparr>)
      else (Invalid, db))"

text \<open>
  Modelled from the spec: the default \<^verbatim>\<open>DB::get0\<close> (declared in the source, defined in
  a file that is not among the sources) constructs an ephemeral snapshot Reader via
  \<^verbatim>\<open>current()\<close> solely to serve the one call.
\<close>

definition DB_get0 :: "DB \<Rightarrow> get0_fn" where
  "DB_get0 db coll key st =
     (case current db of
        (s, snapshot) \<Rightarrow> if ok s then Reader_get0 snapshot coll key st else (s, None, st))"

text \<open>
  Modelled from the spec: the default \<^verbatim>\<open>DB::iterator\<close> (declared in the source, defined
  in a file that is not among the sources), built on \<^verbatim>\<open>current()\<close> like \<^verbatim>\<open>get0\<close>.
\<close>

definition DB_iterator :: "DB \<Rightarrow> CollectionHandle \<Rightarrow> string \<Rightarrow> Status \<times> Iterator option" where
  "DB_iterator db coll key =
     (case current db of
        (s, snapshot) \<Rightarrow> if ok s then Reader_iterator snapshot coll key else (s, None))"

text \<open>
  Modelled from the spec: the default \<^verbatim>\<open>DB::put\<close> (declared in the source, defined in a
  file that is not among the sources) opens an ephemeral single-write Write Batch,
  stages one put and commits immediately.
\<close>

definition DB_put ::
  "CollectionHandle \<Rightarrow> string \<Rightarrow> Data \<Rightarrow> store \<Rightarrow> DB \<Rightarrow> fault + (Status \<times> DB)"
where
  "DB_put coll key val st db =
     (case begin_writes db of
        (s, wb) \<Rightarrow>
          if \<not> ok s then Inr (s, db)
          else (case WriteBatch_put coll key val st wb of
                  Inl f \<Rightarrow> Inl f
                | Inr (s', wb') \<Rightarrow> if \<not> ok s' then Inr (s', db) else Inr (commit wb' db)))"

text \<open>
  The operations that change a database, to speak of what happens between two calls:
  creating a collection and committing a batch (the default put commits a batch of one
  write). \<open>writes_to c k\<close> says that an operation stages a write to key \<open>k\<close> of
  collection \<open>c\<close>.
\<close>

datatype operation = CreateCollection string | Commit WriteBatch

fun perform :: "operation \<Rightarrow> DB \<Rightarrow> DB" where
  "perform (CreateCollection name) db = snd (create_collection name db)"
| "perform (Commit wb) db = snd (commit wb db)"

fun writes_to :: "CollectionHandle \<Rightarrow> string \<Rightarrow> operation \<Rightarrow> bool" where
  "writes_to c k (CreateCollection name) = False"
| "writes_to c k (Commit wb) = list_ex (\<lambda>w. fst w = c \<and> fst (snd w) = k) (pending wb)"

text \<open>
  What a database holds for key \<open>k\<close> of the collection with handle \<open>c\<close>, and whether
  the records of every collection are in strictly increasing key order.
\<close>

definition stored :: "(string \<times> records) list \<Rightarrow> CollectionHandle \<Rightarrow> string \<Rightarrow> string option" where
  "stored cs c k = (if c < length cs then map_of (snd (cs ! c)) k else None)"

definition key_ordered :: "records \<Rightarrow> bool" where
  "key_ordered rs = sorted_wrt (<) (map fst rs)"

definition all_key_ordered :: "(string \<times> records) list \<Rightarrow> bool" where
  "all_key_ordered cs = list_all (\<lambda>c. key_ordered (snd c)) cs"

text \<open>
  The keys an iterator yields: the key it is positioned at, then those of the iterator
  that \<^verbatim>\<open>next()\<close> leaves, for as long as \<^verbatim>\<open>valid()\<close> holds and \<^verbatim>\<open>next()\<close> succeeds.
\<close>

function yielded :: "Iterator \<Rightarrow> string list" where
  "yielded it =
     (if Iterator_valid it
      then (case Iterator_key it of
              None \<Rightarrow> []
            | Some k \<Rightarrow>
                (case Iterator_next it of
                   (s, it') \<Rightarrow> if ok s then k # yielded it' else [k]))
      else [])"
  by pat_completeness auto
termination
  by (relation "measure (\<lambda>it. length (remaining it))")
     (auto simp: Iterator_valid_def Iterator_next_def)

declare yielded.simps [simp del]


section \<open>Properties of \<^verbatim>\<open>Data\<close>\<close>

lemma scan_nul_terminated:
  "CHR 0x00 \<notin> set s \<Longrightarrow> scan_nul (s @ CHR 0x00 # rest) = Some (length s)"
  by (induction s) auto

lemma strlen_c_string:
  assumes "c_string_at st p s"
  shows "strlen st p = Inr (length s)"
proof -
  from assms obtain b off where p: "p = Ptr b off" and b: "b < length st"
    and nz: "CHR 0x00 \<notin> set s"
    and tk: "take (length s + 1) (drop off (st ! b)) = s @ [CHR 0x00]"
    by (auto simp: c_string_at_def split: pointer.splits)
  define rest where "rest = drop (length s + 1) (drop off (st ! b))"
  have "(s @ [CHR 0x00]) @ rest = drop off (st ! b)"
    unfolding rest_def using append_take_drop_id [of "length s + 1" "drop off (st ! b)"]
    by (simp only: tk)
  then have "drop off (st ! b) = s @ CHR 0x00 # rest"
    by simp
  then have "scan_nul (drop off (st ! b)) = Some (length s)"
    using scan_nul_terminated [OF nz, of rest] by simp
  then show ?thesis
    by (simp add: strlen_def p b)
qed

lemma c_string_in_block:
  assumes "c_string_at st (Ptr b off) s"
  shows "b < length st \<and> off + length s < length (st ! b)
         \<and> take (length s) (drop off (st ! b)) = s"
proof -
  from assms have b: "b < length st"
    and tk: "take (length s + 1) (drop off (st ! b)) = s @ [CHR 0x00]"
    by (auto simp: c_string_at_def)
  from tk have "length (take (length s + 1) (drop off (st ! b))) = length s + 1"
    by simp
  then have len: "off + length s < length (st ! b)"
    by (simp add: min_def split: if_splits)
  have "take (length s) (take (length s + 1) (drop off (st ! b))) = take (length s) (s @ [CHR 0x00])"
    by (simp only: tk)
  then have "take (length s) (drop off (st ! b)) = s"
    by (simp add: min_def)
  with b len show ?thesis by simp
qed

lemma read_bytes_nth:
  assumes "b < length st" and "off + n \<le> length (st ! b)"
  shows "\<exists>s. read_bytes st (Ptr b off) n = Inr s \<and> length s = n
           \<and> (\<forall>i<n. s ! i = st ! b ! (off + i))"
  using assms by (simp add: read_bytes_def)

text \<open>
  Claim C9. \<^verbatim>\<open>str()\<close> returns an owned copy of the viewed range. When the data pointer
  is set and the \<open>size\<close> bytes behind it lie in a live buffer, the result is a string of
  exactly \<open>size\<close> bytes, byte \<open>i\<close> of it being byte \<open>i\<close> of the view. When the data
  pointer is null the result is the empty string, whatever \<open>size\<close> says. Hence a view
  without a source and a zero-length view of a live buffer have the same \<^verbatim>\<open>str()\<close>.
  The result is a value of its own: nothing done to the store later changes it.
\<close>

theorem str_copies_viewed_range:
  "(\<forall>b off. data d = Ptr b off \<and> b < length st \<and> off + size_D d \<le> length (st ! b) \<longrightarrow>
      (\<exists>s. str st d = Inr s \<and> length s = size_D d
           \<and> (\<forall>i<size_D d. s ! i = st ! b ! (off + i))))
   \<and> (data d = nullptr \<longrightarrow> str st d = Inr [])
   \<and> (\<forall>b off n. b < length st \<and> off \<le> length (st ! b) \<longrightarrow>
        str st \<lparr>data = Ptr b off, size_D = 0\<rparr> = Inr []
        \<and> str st \<lparr>data = Ptr b off, size_D = 0\<rparr> = str st \<lparr>data = nullptr, size_D = n\<rparr>)"
proof (intro conjI allI impI)
  fix b off
  assume h: "data d = Ptr b off \<and> b < length st \<and> off + size_D d \<le> length (st ! b)"
  then have "str st d = read_bytes st (Ptr b off) (size_D d)"
    by (simp add: str_def)
  with h read_bytes_nth [of b st off "size_D d"]
  show "\<exists>s. str st d = Inr s \<and> length s = size_D d
           \<and> (\<forall>i<size_D d. s ! i = st ! b ! (off + i))"
    by simp
next
  assume "data d = nullptr"
  then show "str st d = Inr []" by (simp add: str_def)
next
  fix b off n
  assume h: "b < length st \<and> off \<le> length (st ! b)"
  then show z: "str st \<lparr>data = Ptr b off, size_D = 0\<rparr> = Inr []"
    by (simp add: str_def read_bytes_def)
  show "str st \<lparr>data = Ptr b off, size_D = 0\<rparr> = str st \<lparr>data = nullptr, size_D = n\<rparr>"
    by (simp add: z) (simp add: str_def)
qed

theorem str_copies_viewed_range_witness:
  "data \<lparr>data = Ptr 0 1, size_D = 3\<rparr> = Ptr 0 1 \<and> 0 < length [''hello'']
   \<and> 1 + size_D \<lparr>data = Ptr 0 1, size_D = 3\<rparr> \<le> length ([''hello''] ! 0)
   \<and> (\<exists>s. str [''hello''] \<lparr>data = Ptr 0 1, size_D = 3\<rparr> = Inr s \<and> length s = 3
          \<and> s ! 0 = CHR ''e'' \<and> s ! 1 = CHR ''l'' \<and> s ! 2 = CHR ''l'')
   \<and> str [''hello''] \<lparr>data = nullptr, size_D = 3\<rparr> = Inr []
   \<and> str [''hello''] \<lparr>data = Ptr 0 5, size_D = 0\<rparr> = str [''hello''] \<lparr>data = nullptr, size_D = 3\<rparr>"
proof -
  let ?d = "\<lparr>data = Ptr 0 1, size_D = 3\<rparr>"
  note inst = str_copies_viewed_range [of ?d "[''hello'']"]
  from inst have
    "\<exists>s. str [''hello''] ?d = Inr s \<and> length s = size_D ?d
         \<and> (\<forall>i<size_D ?d. s ! i = [''hello''] ! 0 ! (1 + i))"
    by simp
  then obtain s where s: "str [''hello''] ?d = Inr s" "length s = 3"
    and nth: "\<forall>i<3. s ! i = ''hello'' ! (1 + i)"
    by auto
  from nth have "s ! 0 = CHR ''e''" "s ! 1 = CHR ''l''" "s ! 2 = CHR ''l''"
    by simp_all
  with s have first: "\<exists>s. str [''hello''] ?d = Inr s \<and> length s = 3
          \<and> s ! 0 = CHR ''e'' \<and> s ! 1 = CHR ''l'' \<and> s ! 2 = CHR ''l''"
    by blast
  from str_copies_viewed_range [of "\<lparr>data = nullptr, size_D = 3\<rparr>" "[''hello'']"]
  have second: "str [''hello''] \<lparr>data = nullptr, size_D = 3\<rparr> = Inr []"
    by simp
  from inst have
    "\<forall>b off n. b < length [''hello''] \<and> off \<le> length ([''hello''] ! b) \<longrightarrow>
        str [''hello''] \<lparr>data = Ptr b off, size_D = 0\<rparr> = Inr []
        \<and> str [''hello''] \<lparr>data = Ptr b off, size_D = 0\<rparr>
            = str [''hello''] \<lparr>data = nullptr, size_D = n\<rparr>"
    by blast
  moreover have "0 < length [''hello''] \<and> 5 \<le> length ([''hello''] ! 0)"
    by simp
  ultimately have third:
    "str [''hello''] \<lparr>data = Ptr 0 5, size_D = 0\<rparr> = str [''hello''] \<lparr>data = nullptr, size_D = 3\<rparr>"
    by blast
  from first second third show ?thesis by simp
qed


section \<open>Constructing a \<^verbatim>\<open>Data\<close>\<close>

lemma Data_cstr_c_string:
  assumes "c_string_at st p s"
  shows "Data_cstr st p = Inr \<lparr>data = p, size_D = length s\<rparr>
         \<and> str st \<lparr>data = p, size_D = length s\<rparr> = Inr s"
proof -
  from assms obtain b off where p: "p = Ptr b off"
    by (auto simp: c_string_at_def split: pointer.splits)
  from c_string_in_block [of st b off s] assms p
  have "str st \<lparr>data = p, size_D = length s\<rparr> = Inr s"
    by (simp add: str_def read_bytes_def)
  with strlen_c_string [OF assms] show ?thesis
    by (simp add: Data_cstr_def)
qed

text \<open>
  Claim C8. Every construction of a \<^verbatim>\<open>Data\<close> returns a view. From a byte pointer plus
  length and from a \<^verbatim>\<open>std::string\<close> the constructor reads no memory: the view holds
  the pointer and the length it was given, and when that range lies in a live buffer
  \<^verbatim>\<open>str()\<close> of the view is that range. From a null-terminated byte sequence \<open>s\<close> the
  constructor returns the view of \<open>s\<close>, of size \<open>length s\<close>. From no source, a null
  pointer with length 0, the view is empty: \<^verbatim>\<open>str()\<close> of it is the empty string in
  every store.
\<close>

theorem Data_constructors:
  "data (Data_ptr p n) = p \<and> size_D (Data_ptr p n) = n
   \<and> (\<forall>b off. p = Ptr b off \<and> b < length st \<and> off + n \<le> length (st ! b) \<longrightarrow>
         str st (Data_ptr p n) = Inr (take n (drop off (st ! b))))
   \<and> data (Data_string x) = s_data x \<and> size_D (Data_string x) = s_size x
   \<and> (\<forall>b off. s_data x = Ptr b off \<and> b < length st \<and> off + s_size x \<le> length (st ! b) \<longrightarrow>
         str st (Data_string x) = Inr (take (s_size x) (drop off (st ! b))))
   \<and> (c_string_at st q s \<longrightarrow>
         (\<exists>d. Data_cstr st q = Inr d \<and> data d = q \<and> size_D d = length s \<and> str st d = Inr s))
   \<and> data (Data_ptr nullptr 0) = nullptr \<and> size_D (Data_ptr nullptr 0) = 0
   \<and> str st (Data_ptr nullptr 0) = Inr []"
proof (intro conjI allI impI)
  fix b off
  assume "p = Ptr b off \<and> b < length st \<and> off + n \<le> length (st ! b)"
  then show "str st (Data_ptr p n) = Inr (take n (drop off (st ! b)))"
    by (simp add: Data_ptr_def str_def read_bytes_def)
next
  fix b off
  assume "s_data x = Ptr b off \<and> b < length st \<and> off + s_size x \<le> length (st ! b)"
  then show "str st (Data_string x) = Inr (take (s_size x) (drop off (st ! b)))"
    by (simp add: Data_string_def str_def read_bytes_def)
next
  assume "c_string_at st q s"
  from Data_cstr_c_string [OF this]
  show "\<exists>d. Data_cstr st q = Inr d \<and> data d = q \<and> size_D d = length s \<and> str st d = Inr s"
    by simp
qed (simp_all add: Data_ptr_def Data_string_def str_def)

theorem Data_constructors_witness:
  "c_string_at [''key'' @ [CHR 0x00] @ ''junk''] (Ptr 0 0) ''key''
   \<and> (\<exists>d. Data_cstr [''key'' @ [CHR 0x00] @ ''junk''] (Ptr 0 0) = Inr d
          \<and> data d = Ptr 0 0 \<and> size_D d = length ''key''
          \<and> str [''key'' @ [CHR 0x00] @ ''junk''] d = Inr ''key'')
   \<and> str [''key'' @ [CHR 0x00] @ ''junk''] (Data_ptr (Ptr 0 4) 4) = Inr ''junk''
   \<and> str [''key'' @ [CHR 0x00] @ ''junk''] (Data_string \<lparr>s_data = Ptr 0 5, s_size = 2\<rparr>) = Inr ''un''
   \<and> str [''key'' @ [CHR 0x00] @ ''junk''] (Data_ptr nullptr 0) = Inr []"
proof -
  let ?st = "[''key'' @ [CHR 0x00] @ ''junk'']"
  let ?x = "\<lparr>s_data = Ptr 0 5, s_size = 2\<rparr>"
  have c: "c_string_at ?st (Ptr 0 0) ''key''"
    by (simp add: c_string_at_def)
  note inst = Data_constructors
    [where p = "Ptr 0 4" and n = 4 and st = ?st and x = ?x and q = "Ptr 0 0" and s = "''key''"]
  from inst c have a:
    "\<exists>d. Data_cstr ?st (Ptr 0 0) = Inr d \<and> data d = Ptr 0 0 \<and> size_D d = length ''key''
        \<and> str ?st d = Inr ''key''"
    by blast
  from inst have
    "\<forall>b off. Ptr 0 4 = Ptr b off \<and> b < length ?st \<and> off + 4 \<le> length (?st ! b) \<longrightarrow>
        str ?st (Data_ptr (Ptr 0 4) 4) = Inr (take 4 (drop off (?st ! b)))"
    by blast
  moreover have "Ptr 0 4 = Ptr 0 4 \<and> 0 < length ?st \<and> 4 + 4 \<le> length (?st ! 0)"
    by simp
  ultimately have "str ?st (Data_ptr (Ptr 0 4) 4) = Inr (take 4 (drop 4 (?st ! 0)))"
    by blast
  then have b: "str ?st (Data_ptr (Ptr 0 4) 4) = Inr ''junk''"
    by simp
  from inst have
    "\<forall>b off. s_data ?x = Ptr b off \<and> b < length ?st \<and> off + s_size ?x \<le> length (?st ! b) \<longrightarrow>
        str ?st (Data_string ?x) = Inr (take (s_size ?x) (drop off (?st ! b)))"
    by blast
  moreover have "s_data ?x = Ptr 0 5 \<and> 0 < length ?st \<and> 5 + s_size ?x \<le> length (?st ! 0)"
    by simp
  ultimately have "str ?st (Data_string ?x) = Inr (take (s_size ?x) (drop 5 (?st ! 0)))"
    by blast
  then have e: "str ?st (Data_string ?x) = Inr ''un''"
    by simp
  from inst have f: "str ?st (Data_ptr nullptr 0) = Inr []"
    by blast
  from c a b e f show ?thesis by blast
qed

text \<open>
  The constructor from a C string relies on its argument being a null-terminated byte
  sequence: \<^verbatim>\<open>strlen\<close> of a null pointer, or of a buffer without a NUL byte, is a fault.
\<close>

lemma Data_cstr_nullptr:
  "Data_cstr st nullptr = Inl NullDereference"
  by (simp add: Data_cstr_def strlen_def)

lemma Data_cstr_unterminated:
  "Data_cstr [''key''] (Ptr 0 0) = Inl OutOfBounds"
  by (simp add: Data_cstr_def strlen_def)


section \<open>Properties of \<^verbatim>\<open>Reader::get\<close>\<close>

lemma get_null_value_faults:
  "get0 coll key st = (OK, None, st') \<Longrightarrow> get get0 coll key val st = Inl NullDereference"
  by (simp add: get_def ok_def)

text \<open>
  Claim C5. Let \<^verbatim>\<open>get0\<close> return the status \<open>s\<close> and the pointer \<open>v\<close>, and let it keep
  its contract: with \<open>OK\<close> it hands back a buffer (a \<^verbatim>\<open>Data\<close> whose \<^verbatim>\<open>str()\<close> is
  defined). Then \<^verbatim>\<open>get\<close> returns that same status \<open>s\<close>, and when \<open>s\<close> is \<open>OK\<close>,
  the caller's string is \<^verbatim>\<open>str()\<close> of the buffer: the \<open>size\<close> bytes that the buffer's
  pointer addresses, copied.
\<close>

theorem get_status_and_copy:
  assumes "get0 coll key st = (s, v, st')"
    and "ok s \<longrightarrow> (\<exists>d bytes. v = Some d \<and> str st' d = Inr bytes)"
  shows "\<exists>val'. get get0 coll key val st = Inr (s, val', st')
           \<and> (ok s \<longrightarrow>
                (\<exists>d. v = Some d \<and> str st' d = Inr val'
                   \<and> (\<forall>b off. data d = Ptr b off \<longrightarrow>
                          val' = take (size_D d) (drop off (st' ! b)))))"
proof (cases "ok s")
  case True
  with assms(2) obtain d bytes where d: "v = Some d" "str st' d = Inr bytes"
    by blast
  then have "\<forall>b off. data d = Ptr b off \<longrightarrow> bytes = take (size_D d) (drop off (st' ! b))"
    by (auto simp: str_def read_bytes_def split: if_splits)
  with d True assms(1) show ?thesis
    by (simp add: get_def)
next
  case False
  with assms(1) show ?thesis
    by (simp add: get_def)
qed

theorem get_status_and_copy_witness:
  "(\<lambda>c k st. (OK, Some \<lparr>data = Ptr (length st) 0, size_D = 2\<rparr>, st @ [''v1'']))
      7 ''k'' [''x''] = (OK, Some \<lparr>data = Ptr 1 0, size_D = 2\<rparr>, [''x'', ''v1''])
   \<and> str [''x'', ''v1''] \<lparr>data = Ptr 1 0, size_D = 2\<rparr> = Inr ''v1''
   \<and> get (\<lambda>c k st. (OK, Some \<lparr>data = Ptr (length st) 0, size_D = 2\<rparr>, st @ [''v1'']))
        7 ''k'' ''old'' [''x''] = Inr (OK, ''v1'', [''x'', ''v1''])"
proof -
  let ?get0 = "\<lambda>(c::nat) (k::string) st.
     (OK, Some \<lparr>data = Ptr (length st) 0, size_D = 2\<rparr>, st @ [''v1''])"
  let ?d = "\<lparr>data = Ptr 1 0, size_D = 2\<rparr>"
  have call: "?get0 7 ''k'' [''x''] = (OK, Some ?d, [''x'', ''v1''])"
    by simp
  have buf: "str [''x'', ''v1''] ?d = Inr ''v1''"
    by (simp add: str_def read_bytes_def)
  then have contract: "ok OK \<longrightarrow> (\<exists>d bytes. Some ?d = Some d \<and> str [''x'', ''v1''] d = Inr bytes)"
    by blast
  from get_status_and_copy [of ?get0 7 "''k''" "[''x'']" OK "Some ?d" "[''x'', ''v1'']" "''old''",
      OF call contract]
  obtain val' where "get ?get0 7 ''k'' ''old'' [''x''] = Inr (OK, val', [''x'', ''v1''])"
    and "ok OK \<longrightarrow> (\<exists>d. Some ?d = Some d \<and> str [''x'', ''v1''] d = Inr val')"
    by blast
  with buf have "get ?get0 7 ''k'' ''old'' [''x''] = Inr (OK, ''v1'', [''x'', ''v1''])"
    by (simp add: ok_def)
  with call buf show ?thesis by blast
qed

text \<open>
  Claim C10. When \<^verbatim>\<open>get0\<close> returns a status that is not \<open>OK\<close>, \<^verbatim>\<open>get\<close> returns that
  status and the caller's string is what it was before the call, whatever \<^verbatim>\<open>get0\<close>
  left in the pointer.
\<close>

theorem get_failure_keeps_value:
  assumes "get0 coll key st = (s, v, st')" and "\<not> ok s"
  shows "get get0 coll key val st = Inr (s, val, st')"
  using assms by (simp add: get_def)

theorem get_failure_keeps_value_witness:
  "(\<lambda>c k st. (NotFound, None, st)) 7 ''k'' [''x''] = (NotFound, None, [''x''])
   \<and> \<not> ok NotFound
   \<and> get (\<lambda>c k st. (NotFound, None, st)) 7 ''k'' ''old'' [''x''] = Inr (NotFound, ''old'', [''x''])"
proof -
  let ?get0 = "\<lambda>(c::nat) (k::string) (st::store). (NotFound, None :: Data option, st)"
  have call: "?get0 7 ''k'' [''x''] = (NotFound, None, [''x''])"
    by simp
  have bad: "\<not> ok NotFound"
    by (simp add: ok_def)
  from get_failure_keeps_value [of ?get0 7 "''k''" "[''x'']" NotFound None "[''x'']" "''old''",
      OF call bad] call bad
  show ?thesis by blast
qed

section \<open>Properties of the storage engine\<close>

text \<open>The order of keys: strings compare byte by byte, bytes as unsigned numbers.\<close>

lemma string_less_bytewise:
  "(c # x < d # y) \<longleftrightarrow> (of_char c < (of_char d :: nat) \<or> c = d \<and> x < y)"
  "([] < d # y) = True" "(x < []) = False"
  by (auto simp: less_char_def)

lemma map_of_upsert: "map_of (upsert k v rs) = (map_of rs)(k \<mapsto> v)"
  by (induction rs) (auto simp: fun_eq_iff)

lemma keys_upsert: "fst ` set (upsert k v rs) = insert k (fst ` set rs)"
  by (induction rs) auto

lemma key_ordered_upsert:
  "key_ordered rs \<Longrightarrow> key_ordered (upsert k v rs)"
  unfolding key_ordered_def
proof (induction rs)
  case Nil
  then show ?case by simp
next
  case (Cons r rs)
  then show ?case
    using keys_upsert [of k v rs] by (auto simp: image_iff) 
qed

lemma length_apply_put: "length (apply_put cs w) = length cs"
  by (simp add: apply_put_def split: prod.splits)

lemma stored_apply_put:
  "stored (apply_put cs (c, k, v)) c' k' =
     (if c' = c \<and> k' = k \<and> c < length cs then Some v else stored cs c' k')"
  by (auto simp: stored_def apply_put_def map_of_upsert nth_list_update)

lemma length_foldl_apply_put: "length (foldl apply_put cs ws) = length cs"
  by (induction ws arbitrary: cs) (simp_all add: length_apply_put)

lemma stored_foldl_untouched:
  "\<forall>w\<in>set ws. \<not> (fst w = c \<and> fst (snd w) = k) \<Longrightarrow>
     stored (foldl apply_put cs ws) c k = stored cs c k"
proof (induction ws arbitrary: cs)
  case Nil
  then show ?case by simp
next
  case (Cons w ws)
  obtain c' k' v' where w: "w = (c', k', v')" by (cases w) auto
  with Cons show ?case by (auto simp: stored_apply_put)
qed

lemma stored_foldl_last:
  assumes "c < length cs" and "\<forall>w\<in>set ys. \<not> (fst w = c \<and> fst (snd w) = k)"
  shows "stored (foldl apply_put cs (xs @ (c, k, v) # ys)) c k = Some v"
  using assms
  by (simp add: stored_foldl_untouched stored_apply_put length_foldl_apply_put)

lemma all_key_ordered_apply_put:
  assumes "all_key_ordered cs"
  shows "all_key_ordered (apply_put cs w)"
proof -
  obtain c k v where w: "w = (c, k, v)" by (cases w) auto
  show ?thesis
  proof (cases "c < length cs")
    case True
    with assms have "key_ordered (snd (cs ! c))"
      by (simp add: all_key_ordered_def list_all_length)
    then have "key_ordered (upsert k v (snd (cs ! c)))"
      by (rule key_ordered_upsert)
    with assms True show ?thesis
      by (auto simp: all_key_ordered_def list_all_length apply_put_def w nth_list_update)
  next
    case False
    with assms show ?thesis by (simp add: apply_put_def w)
  qed
qed

lemma all_key_ordered_foldl:
  "all_key_ordered cs \<Longrightarrow> all_key_ordered (foldl apply_put cs ws)"
  by (induction ws arbitrary: cs) (simp_all add: all_key_ordered_apply_put)

lemma all_key_ordered_perform:
  "all_key_ordered (collections db) \<Longrightarrow> all_key_ordered (collections (perform op db))"
proof (cases op)
  case (CreateCollection name)
  assume "all_key_ordered (collections db)"
  then show ?thesis
    by (simp add: CreateCollection create_collection_def all_key_ordered_def key_ordered_def)
next
  case (Commit wb)
  assume "all_key_ordered (collections db)"
  then show ?thesis
    by (simp add: Commit commit_def all_key_ordered_foldl)
qed

lemma all_key_ordered_fold:
  "all_key_ordered (collections db) \<Longrightarrow> all_key_ordered (collections (fold perform ops db))"
  by (induction ops arbitrary: db) (simp_all add: all_key_ordered_perform)

lemma all_key_ordered_reachable:
  "all_key_ordered (collections (fold perform ops empty_DB))"
  by (rule all_key_ordered_fold) (simp add: empty_DB_def all_key_ordered_def)

lemma stored_perform:
  assumes "\<not> writes_to c k op"
  shows "stored (collections (perform op db)) c k = stored (collections db) c k"
proof (cases op)
  case (CreateCollection name)
  then show ?thesis
    by (auto simp: create_collection_def stored_def nth_append)
next
  case (Commit wb)
  with assms have "\<forall>w\<in>set (pending wb). \<not> (fst w = c \<and> fst (snd w) = k)"
    by (simp add: list_ex_iff)
  then show ?thesis
    by (simp add: Commit commit_def stored_foldl_untouched)
qed

lemma stored_fold_perform:
  "\<forall>op\<in>set ops. \<not> writes_to c k op \<Longrightarrow>
     stored (collections (fold perform ops db)) c k = stored (collections db) c k"
  by (induction ops arbitrary: db) (simp_all add: stored_perform)

lemma Reader_get_stored:
  assumes "current db = (s, R)"
  shows "get (Reader_get0 R) c k val st =
           (case stored (collections db) c k of
              None \<Rightarrow> Inr (NotFound, val, st)
            | Some v \<Rightarrow> Inr (OK, v, st @ [v]))"
  using assms
  by (auto simp: current_def get_def stored_def ok_def str_def read_bytes_def nth_append
      split: option.splits)

lemma DB_get_stored:
  "get (DB_get0 db) c k val st =
     (case stored (collections db) c k of
        None \<Rightarrow> Inr (NotFound, val, st)
      | Some v \<Rightarrow> Inr (OK, v, st @ [v]))"
proof -
  have "DB_get0 db = Reader_get0 (snd (current db))"
    by (simp add: DB_get0_def current_def ok_def fun_eq_iff)
  then show ?thesis
    using Reader_get_stored [of db OK "snd (current db)"] by (simp add: current_def)
qed

lemma commit_last_write:
  assumes "commit wb db = (OK, db')"
    and "pending wb = xs @ (c, k, v) # ys"
    and "\<forall>w\<in>set ys. \<not> (fst w = c \<and> fst (snd w) = k)"
  shows "stored (collections db') c k = Some v"
proof -
  from assms(1) have all: "list_all (\<lambda>w. fst w < length (collections db)) (pending wb)"
    and db': "collections db' = foldl apply_put (collections db) (pending wb)"
    by (auto simp: commit_def split: if_splits)
  from all assms(2) have "c < length (collections db)"
    by (simp add: list_all_iff)
  from stored_foldl_last [OF this assms(3), of xs v] db' assms(2) show ?thesis
    by simp
qed

lemma WriteBatch_put_pending:
  assumes "WriteBatch_put c k val st0 wb = Inr (s, wb1)" and "str st0 val = Inr v"
  shows "s = OK \<and> pending wb1 = pending wb @ [(c, k, v)]"
  using assms by (auto simp: WriteBatch_put_def)

lemma DB_put_commit:
  assumes "DB_put c k val st0 db = Inr (s, db1)" and "str st0 val = Inr v"
  shows "commit \<lparr>pending = [(c, k, v)]\<rparr> db = (s, db1)"
  using assms by (auto simp: DB_put_def begin_writes_def WriteBatch_put_def ok_def)

lemma str_bytes:
  assumes "str st d = Inr bytes"
  shows "bytes = (case data d of
                    nullptr \<Rightarrow> []
                  | Ptr b off \<Rightarrow> take (size_D d) (drop off (st ! b)))"
  using assms by (auto simp: str_def read_bytes_def split: pointer.splits if_splits)

lemma WriteBatch_put_str:
  "WriteBatch_put c k val st0 wb = Inr r \<Longrightarrow> \<exists>bytes. str st0 val = Inr bytes"
  by (auto simp: WriteBatch_put_def split: sum.splits)

lemma DB_put_str:
  "DB_put c k val st0 db = Inr r \<Longrightarrow> \<exists>bytes. str st0 val = Inr bytes"
  by (auto simp: DB_put_def begin_writes_def WriteBatch_put_def ok_def split: sum.splits)

lemma committed_put_stored:
  assumes "(\<exists>wb wb1 wb2 more.
              WriteBatch_put c k val0 st0 wb = Inr (OK, wb1)
              \<and> pending wb2 = pending wb1 @ more
              \<and> (\<forall>w\<in>set more. \<not> (fst w = c \<and> fst (snd w) = k))
              \<and> commit wb2 db = (OK, db1))
           \<or> DB_put c k val0 st0 db = Inr (OK, db1)"
  shows "stored (collections db1) c k =
           Some (case data val0 of
                   nullptr \<Rightarrow> []
                 | Ptr b off \<Rightarrow> take (size_D val0) (drop off (st0 ! b)))"
proof -
  from assms obtain bytes where bytes: "str st0 val0 = Inr bytes"
    using WriteBatch_put_str DB_put_str by blast
  have "stored (collections db1) c k = Some bytes"
    using assms
  proof (elim disjE exE conjE)
    fix wb wb1 wb2 more
    assume p: "WriteBatch_put c k val0 st0 wb = Inr (OK, wb1)"
      and m: "pending wb2 = pending wb1 @ more"
      and n: "\<forall>w\<in>set more. \<not> (fst w = c \<and> fst (snd w) = k)"
      and cm: "commit wb2 db = (OK, db1)"
    from WriteBatch_put_pending [OF p bytes] m
    have "pending wb2 = pending wb @ (c, k, bytes) # more" by simp
    from commit_last_write [OF cm this n] show ?thesis .
  next
    assume "DB_put c k val0 st0 db = Inr (OK, db1)"
    from DB_put_commit [OF this bytes]
    have "commit \<lparr>pending = [(c, k, bytes)]\<rparr> db = (OK, db1)" .
    from commit_last_write [OF this, of "[]" c k bytes "[]"] show ?thesis by simp
  qed
  with str_bytes [OF bytes] show ?thesis by simp
qed

text \<open>
  Claim C1. A \<^verbatim>\<open>put\<close> to key \<open>k\<close> of collection \<open>c\<close> is given a view \<open>val0\<close>; the
  bytes \<open>v\<close> that are put are the \<open>size\<close> bytes of the store of that moment from the
  view's pointer on (none if the pointer is null). The put succeeds either through a
  Write Batch, in which no later staged write goes to \<open>k\<close> of \<open>c\<close> and whose
  \<^verbatim>\<open>commit\<close> returns \<open>OK\<close>, or through the default \<^verbatim>\<open>put\<close> of the database.
  Whatever operations follow, as long as none of them writes to \<open>k\<close> of \<open>c\<close>,
  \<^verbatim>\<open>get\<close> on the database and on every snapshot taken then returns \<open>OK\<close> and assigns
  exactly the bytes \<open>v\<close>.
\<close>

theorem put_then_get:
  assumes "(\<exists>wb wb1 wb2 more.
              WriteBatch_put c k val0 st0 wb = Inr (OK, wb1)
              \<and> pending wb2 = pending wb1 @ more
              \<and> (\<forall>w\<in>set more. \<not> (fst w = c \<and> fst (snd w) = k))
              \<and> commit wb2 db = (OK, db1))
           \<or> DB_put c k val0 st0 db = Inr (OK, db1)"
    and "v = (case data val0 of
                nullptr \<Rightarrow> []
              | Ptr b off \<Rightarrow> take (size_D val0) (drop off (st0 ! b)))"
    and "\<forall>op\<in>set ops. \<not> writes_to c k op"
  shows "get (DB_get0 (fold perform ops db1)) c k val st = Inr (OK, v, st @ [v])
         \<and> (\<forall>s R. current (fold perform ops db1) = (s, R) \<longrightarrow>
               get (Reader_get0 R) c k val st = Inr (OK, v, st @ [v]))"
proof -
  from committed_put_stored [OF assms(1)] assms(2)
  have "stored (collections db1) c k = Some v" by simp
  with stored_fold_perform [OF assms(3), of db1]
  have "stored (collections (fold perform ops db1)) c k = Some v" by simp
  then show ?thesis
    using DB_get_stored [of "fold perform ops db1" c k val st]
      Reader_get_stored [of "fold perform ops db1" _ _ c k val st]
    by simp
qed

theorem put_then_get_witness:
  "WriteBatch_put 0 ''a'' \<lparr>data = Ptr 0 1, size_D = 3\<rparr> [''hello''] \<lparr>pending = []\<rparr>
     = Inr (OK, \<lparr>pending = [(0, ''a'', ''ell'')]\<rparr>)
   \<and> commit \<lparr>pending = [(0, ''a'', ''ell''), (0, ''b'', ''2'')]\<rparr> \<lparr>collections = [(''X'', [])]\<rparr>
     = (OK, \<lparr>collections = [(''X'', [(''a'', ''ell''), (''b'', ''2'')])]\<rparr>)
   \<and> get (DB_get0 (fold perform [CreateCollection ''Y'', Commit \<lparr>pending = [(0, ''c'', ''3'')]\<rparr>]
                      \<lparr>collections = [(''X'', [(''a'', ''ell''), (''b'', ''2'')])]\<rparr>))
        0 ''a'' ''old'' [] = Inr (OK, ''ell'', [''ell''])
   \<and> DB_put 0 ''a'' \<lparr>data = Ptr 0 1, size_D = 3\<rparr> [''hello''] \<lparr>collections = [(''X'', [])]\<rparr>
     = Inr (OK, \<lparr>collections = [(''X'', [(''a'', ''ell'')])]\<rparr>)
   \<and> get (DB_get0 (fold perform [CreateCollection ''Y'', Commit \<lparr>pending = [(0, ''c'', ''3'')]\<rparr>]
                      \<lparr>collections = [(''X'', [(''a'', ''ell'')])]\<rparr>))
        0 ''a'' ''old'' [''x''] = Inr (OK, ''ell'', [''x'', ''ell''])"
proof -
  let ?val = "\<lparr>data = Ptr 0 1, size_D = 3\<rparr>"
  let ?db = "\<lparr>collections = [(''X'', [])]\<rparr>"
  let ?db1 = "\<lparr>collections = [(''X'', [(''a'', ''ell''), (''b'', ''2'')])]\<rparr>"
  let ?db2 = "\<lparr>collections = [(''X'', [(''a'', ''ell'')])]\<rparr>"
  let ?ops = "[CreateCollection ''Y'', Commit \<lparr>pending = [(0, ''c'', ''3'')]\<rparr>]"
  have bytes: "''ell'' = (case data ?val of
                            nullptr \<Rightarrow> []
                          | Ptr b off \<Rightarrow> take (size_D ?val) (drop off ([''hello''] ! b)))"
    by simp
  have put: "WriteBatch_put 0 ''a'' ?val [''hello''] \<lparr>pending = []\<rparr>
               = Inr (OK, \<lparr>pending = [(0, ''a'', ''ell'')]\<rparr>)"
    by (simp add: WriteBatch_put_def str_def read_bytes_def)
  have cm: "commit \<lparr>pending = [(0, ''a'', ''ell''), (0, ''b'', ''2'')]\<rparr> ?db = (OK, ?db1)"
    by (simp add: commit_def apply_put_def)
  have dbput: "DB_put 0 ''a'' ?val [''hello''] ?db = Inr (OK, ?db2)"
    by (simp add: DB_put_def begin_writes_def WriteBatch_put_def str_def read_bytes_def
        ok_def commit_def apply_put_def)
  have "WriteBatch_put 0 ''a'' ?val [''hello''] \<lparr>pending = []\<rparr>
          = Inr (OK, \<lparr>pending = [(0, ''a'', ''ell'')]\<rparr>)
        \<and> pending \<lparr>pending = [(0, ''a'', ''ell''), (0, ''b'', ''2'')]\<rparr>
            = pending \<lparr>pending = [(0, ''a'', ''ell'')]\<rparr> @ [(0, ''b'', ''2'')]
        \<and> (\<forall>w\<in>set [(0::nat, ''b'', ''2'')]. \<not> (fst w = 0 \<and> fst (snd w) = ''a''))
        \<and> commit \<lparr>pending = [(0, ''a'', ''ell''), (0, ''b'', ''2'')]\<rparr> ?db = (OK, ?db1)"
    using put cm by simp
  then have batch_route:
    "(\<exists>wb wb1 wb2 more.
        WriteBatch_put 0 ''a'' ?val [''hello''] wb = Inr (OK, wb1)
        \<and> pending wb2 = pending wb1 @ more
        \<and> (\<forall>w\<in>set more. \<not> (fst w = 0 \<and> fst (snd w) = ''a''))
        \<and> commit wb2 ?db = (OK, ?db1))
     \<or> DB_put 0 ''a'' ?val [''hello''] ?db = Inr (OK, ?db1)"
    by blast
  from dbput have default_route:
    "(\<exists>wb wb1 wb2 more.
        WriteBatch_put 0 ''a'' ?val [''hello''] wb = Inr (OK, wb1)
        \<and> pending wb2 = pending wb1 @ more
        \<and> (\<forall>w\<in>set more. \<not> (fst w = 0 \<and> fst (snd w) = ''a''))
        \<and> commit wb2 ?db = (OK, ?db2))
     \<or> DB_put 0 ''a'' ?val [''hello''] ?db = Inr (OK, ?db2)"
    by (rule disjI2)
  have later: "\<forall>op\<in>set ?ops. \<not> writes_to 0 ''a'' op"
    by simp
  from put_then_get [OF batch_route bytes later, of "''old''" "[]"]
  have one: "get (DB_get0 (fold perform ?ops ?db1)) 0 ''a'' ''old'' [] = Inr (OK, ''ell'', [''ell''])"
    by simp
  from put_then_get [OF default_route bytes later, of "''old''" "[''x'']"]
  have two: "get (DB_get0 (fold perform ?ops ?db2)) 0 ''a'' ''old'' [''x'']
               = Inr (OK, ''ell'', [''x'', ''ell''])"
    by simp
  from put cm one dbput two show ?thesis by blast
qed

lemma index_of_Some:
  "index_of name ns = Some i \<Longrightarrow> i < length ns \<and> ns ! i = name"
  by (induction ns arbitrary: i) (auto split: if_splits)

lemma collection_handle:
  assumes "collection name db = (OK, Some c)"
  shows "c < length (collections db) \<and> fst (collections db ! c) = name"
proof -
  from assms have "index_of name (map fst (collections db)) = Some c"
    by (auto simp: collection_def split: option.splits)
  from index_of_Some [OF this] show ?thesis by auto
qed

lemma key_ordered_nth:
  "all_key_ordered cs \<Longrightarrow> c < length cs \<Longrightarrow> key_ordered (snd (cs ! c))"
  by (simp add: all_key_ordered_def list_all_length)

lemma key_ordered_dropWhile:
  "key_ordered rs \<Longrightarrow> key_ordered (dropWhile P rs)"
  by (simp add: key_ordered_def sorted_wrt_map)

lemma first_geq_least:
  assumes ord: "key_ordered rs" and dw: "dropWhile (\<lambda>r. fst r < k) rs = r # rest"
  shows "r \<in> set rs \<and> k \<le> fst r \<and> (\<forall>r'\<in>set rs. k \<le> fst r' \<longrightarrow> fst r \<le> fst r')"
proof (intro conjI ballI impI)
  from dw have "r \<in> set (dropWhile (\<lambda>r. fst r < k) rs)" by simp
  then show "r \<in> set rs" by (rule set_dropWhileD)
next
  from hd_dropWhile [of "\<lambda>r. fst r < k" rs] dw show "k \<le> fst r" by simp
next
  fix r' assume r': "r' \<in> set rs" and ge: "k \<le> fst r'"
  have "set rs = set (takeWhile (\<lambda>r. fst r < k) rs) \<union> set (dropWhile (\<lambda>r. fst r < k) rs)"
    by (simp only: set_append [symmetric] takeWhile_dropWhile_id)
  with r' ge dw have "r' \<in> set (r # rest)"
    by (auto dest: set_takeWhileD)
  moreover from key_ordered_dropWhile [OF ord, of "\<lambda>r. fst r < k"] dw
  have "\<forall>x\<in>set rest. fst r < fst x"
    by (simp add: key_ordered_def)
  ultimately show "fst r \<le> fst r'" by auto
qed

text \<open>
  Claim C3. In a database reached from the empty one by any operations, let \<open>c\<close> be the
  handle of a collection and \<open>recs\<close> its records. \<^verbatim>\<open>iterator(c, k)\<close>, on a snapshot
  and by default on the database, returns \<open>OK\<close> with an iterator. The iterator is valid
  exactly when some record has a key greater than or equal to \<open>k\<close>; it is then
  positioned at such a record, and no record with a key at least \<open>k\<close> has a smaller
  key. When \<open>k\<close> is empty the iterator stands before all records of the collection.
\<close>

theorem iterator_first_key_geq:
  assumes "db = fold perform ops empty_DB"
    and "collection name db = (OK, Some c)"
    and "current db = (OK, R)"
    and "recs = snd (collections db ! c)"
  shows "\<exists>it. Reader_iterator R c k = (OK, Some it) \<and> DB_iterator db c k = (OK, Some it)
           \<and> (Iterator_valid it \<longleftrightarrow> (\<exists>r\<in>set recs. k \<le> fst r))
           \<and> (Iterator_valid it \<longrightarrow>
                (\<exists>r\<in>set recs. Iterator_key it = Some (fst r) \<and> Iterator_value it = Some (snd r)
                   \<and> k \<le> fst r \<and> (\<forall>r'\<in>set recs. k \<le> fst r' \<longrightarrow> fst r \<le> fst r')))
           \<and> (k = [] \<longrightarrow> remaining it = recs)"
proof -
  let ?it = "Iterator (dropWhile (\<lambda>r. fst r < k) recs)"
  from collection_handle [OF assms(2)] have c: "c < length (collections db)" by simp
  from assms(3) have R: "R = Snapshot (map snd (collections db))"
    by (simp add: current_def)
  from c R assms(4) have it: "Reader_iterator R c k = (OK, Some ?it)"
    by simp
  with assms(3) have dbit: "DB_iterator db c k = (OK, Some ?it)"
    by (simp add: DB_iterator_def ok_def)
  from all_key_ordered_reachable [of ops] assms(1) c assms(4)
  have ord: "key_ordered recs"
    by (simp add: key_ordered_nth)
  have valid: "Iterator_valid ?it \<longleftrightarrow> (\<exists>r\<in>set recs. k \<le> fst r)"
    by (simp add: Iterator_valid_def not_less)
  have pos: "\<exists>r\<in>set recs. Iterator_key ?it = Some (fst r) \<and> Iterator_value ?it = Some (snd r)
                   \<and> k \<le> fst r \<and> (\<forall>r'\<in>set recs. k \<le> fst r' \<longrightarrow> fst r \<le> fst r')"
    if "Iterator_valid ?it"
  proof -
    from that have "dropWhile (\<lambda>r. fst r < k) recs \<noteq> []"
      unfolding Iterator_valid_def by simp
    then obtain r rest where dw: "dropWhile (\<lambda>r. fst r < k) recs = r # rest"
      by (cases "dropWhile (\<lambda>r. fst r < k) recs") simp_all
    from first_geq_least [OF ord dw] dw show ?thesis
      by (auto simp: Iterator_key_def Iterator_value_def)
  qed
  have start: "k = [] \<longrightarrow> remaining ?it = recs"
    by (cases recs) auto
  from it dbit valid pos start show ?thesis by blast
qed

lemma example_db:
  "fold perform
     [CreateCollection ''X'',
      Commit \<lparr>pending = [(0, ''b'', ''2''), (0, ''a'', ''1''), (0, ''d'', ''4'')]\<rparr>] empty_DB
   = \<lparr>collections = [(''X'', [(''a'', ''1''), (''b'', ''2''), (''d'', ''4'')])]\<rparr>"
  by (simp add: empty_DB_def create_collection_def commit_def apply_put_def)

theorem iterator_first_key_geq_witness:
  "collection ''X'' \<lparr>collections = [(''X'', [(''a'', ''1''), (''b'', ''2''), (''d'', ''4'')])]\<rparr>
     = (OK, Some 0)
   \<and> current \<lparr>collections = [(''X'', [(''a'', ''1''), (''b'', ''2''), (''d'', ''4'')])]\<rparr>
     = (OK, Snapshot [[(''a'', ''1''), (''b'', ''2''), (''d'', ''4'')]])
   \<and> (\<exists>it. Reader_iterator (Snapshot [[(''a'', ''1''), (''b'', ''2''), (''d'', ''4'')]]) 0 ''c''
              = (OK, Some it)
          \<and> Iterator_valid it \<and> Iterator_key it = Some ''d'' \<and> Iterator_value it = Some ''4'')
   \<and> (\<exists>it. Reader_iterator (Snapshot [[(''a'', ''1''), (''b'', ''2''), (''d'', ''4'')]]) 0 ''e''
              = (OK, Some it)
          \<and> \<not> Iterator_valid it)"
proof -
  let ?recs = "[(''a'', ''1''), (''b'', ''2''), (''d'', ''4'')]"
  let ?db = "\<lparr>collections = [(''X'', ?recs)]\<rparr>"
  let ?ops = "[CreateCollection ''X'',
      Commit \<lparr>pending = [(0, ''b'', ''2''), (0, ''a'', ''1''), (0, ''d'', ''4'')]\<rparr>]"
  have db: "?db = fold perform ?ops empty_DB"
    by (simp only: example_db)
  have h: "collection ''X'' ?db = (OK, Some 0)"
    by (simp add: collection_def)
  have cur: "current ?db = (OK, Snapshot [?recs])"
    by (simp add: current_def)
  have recs: "?recs = snd (collections ?db ! 0)"
    by simp
  from iterator_first_key_geq [OF db h cur recs, of "''c''"]
  obtain it where it: "Reader_iterator (Snapshot [?recs]) 0 ''c'' = (OK, Some it)"
    and v: "Iterator_valid it \<longleftrightarrow> (\<exists>r\<in>set ?recs. ''c'' \<le> fst r)"
    and p: "Iterator_valid it \<longrightarrow>
              (\<exists>r\<in>set ?recs. Iterator_key it = Some (fst r) \<and> Iterator_value it = Some (snd r)
                 \<and> ''c'' \<le> fst r \<and> (\<forall>r'\<in>set ?recs. ''c'' \<le> fst r' \<longrightarrow> fst r \<le> fst r'))"
    by blast
  from v have valid: "Iterator_valid it" by simp
  with p have "Iterator_key it = Some ''d'' \<and> Iterator_value it = Some ''4''"
    by simp
  with it valid have first:
    "\<exists>it. Reader_iterator (Snapshot [?recs]) 0 ''c'' = (OK, Some it)
          \<and> Iterator_valid it \<and> Iterator_key it = Some ''d'' \<and> Iterator_value it = Some ''4''"
    by blast
  from iterator_first_key_geq [OF db h cur recs, of "''e''"]
  obtain it' where it': "Reader_iterator (Snapshot [?recs]) 0 ''e'' = (OK, Some it')"
    and v': "Iterator_valid it' \<longleftrightarrow> (\<exists>r\<in>set ?recs. ''e'' \<le> fst r)"
    by blast
  from v' have "\<not> Iterator_valid it'" by simp
  with it' have second:
    "\<exists>it. Reader_iterator (Snapshot [?recs]) 0 ''e'' = (OK, Some it) \<and> \<not> Iterator_valid it"
    by blast
  from h cur first second show ?thesis by blast
qed

lemma yielded_remaining: "yielded (Iterator rs) = map fst rs"
proof (induction rs)
  case Nil
  show ?case by (subst yielded.simps) (simp add: Iterator_valid_def)
next
  case (Cons r rs)
  then show ?case
    by (subst yielded.simps)
       (simp add: Iterator_valid_def Iterator_key_def Iterator_next_def ok_def)
qed

lemma dropWhile_less_filter:
  "key_ordered rs \<Longrightarrow> dropWhile (\<lambda>r. fst r < k) rs = filter (\<lambda>r. k \<le> fst r) rs"
  unfolding key_ordered_def
proof (induction rs)
  case Nil
  then show ?case by simp
next
  case (Cons r rs)
  show ?case
  proof (cases "fst r < k")
    case True
    with Cons show ?thesis by simp
  next
    case False
    with Cons.prems have "\<forall>x\<in>set rs. k \<le> fst x" by auto
    then have "filter (\<lambda>r. k \<le> fst r) rs = rs" by (simp add: filter_id_conv)
    with False show ?thesis by simp
  qed
qed

text \<open>
  Claim C4. The keys that an iterator over a collection yields, from \<^verbatim>\<open>iterator(c, k)\<close>
  through successive \<^verbatim>\<open>next()\<close> while \<^verbatim>\<open>valid()\<close> holds, are strictly increasing in
  the byte-wise lexicographic order, so no key repeats; they are the keys of the
  collection from \<open>k\<close> on.
\<close>

theorem iteration_strictly_increasing:
  assumes "db = fold perform ops empty_DB"
    and "current db = (s0, R)"
    and "Reader_iterator R c k = (s, Some it) \<or> DB_iterator db c k = (s, Some it)"
  shows "sorted_wrt (<) (yielded it) \<and> distinct (yielded it)
         \<and> yielded it = filter (\<lambda>k'. k \<le> k') (map fst (snd (collections db ! c)))"
proof -
  let ?recs = "snd (collections db ! c)"
  from assms(2) have R: "R = Snapshot (map snd (collections db))"
    by (simp add: current_def)
  with assms(3) have "Reader_iterator R c k = (s, Some it)"
    by (auto simp: DB_iterator_def current_def ok_def)
  with R have c: "c < length (collections db)"
    and it: "it = Iterator (dropWhile (\<lambda>r. fst r < k) ?recs)"
    by (auto split: if_splits)
  from all_key_ordered_reachable [of ops] assms(1) c
  have ord: "key_ordered ?recs"
    by (simp add: key_ordered_nth)
  from key_ordered_dropWhile [OF ord, of "\<lambda>r. fst r < k"] it
  have inc: "sorted_wrt (<) (yielded it)"
    by (simp add: yielded_remaining key_ordered_def)
  then have "distinct (yielded it)"
    by (simp add: strict_sorted_iff)
  moreover from it dropWhile_less_filter [OF ord, of k]
  have "yielded it = filter (\<lambda>k'. k \<le> k') (map fst ?recs)"
    by (simp add: yielded_remaining filter_map comp_def)
  ultimately show ?thesis using inc by simp
qed

theorem iteration_strictly_increasing_witness:
  "current \<lparr>collections = [(''X'', [(''a'', ''1''), (''b'', ''2''), (''d'', ''4'')])]\<rparr>
     = (OK, Snapshot [[(''a'', ''1''), (''b'', ''2''), (''d'', ''4'')]])
   \<and> Reader_iterator (Snapshot [[(''a'', ''1''), (''b'', ''2''), (''d'', ''4'')]]) 0 ''b''
       = (OK, Some (Iterator [(''b'', ''2''), (''d'', ''4'')]))
   \<and> yielded (Iterator [(''b'', ''2''), (''d'', ''4'')]) = [''b'', ''d'']
   \<and> sorted_wrt (<) (yielded (Iterator [(''b'', ''2''), (''d'', ''4'')]))"
proof -
  let ?recs = "[(''a'', ''1''), (''b'', ''2''), (''d'', ''4'')]"
  let ?db = "\<lparr>collections = [(''X'', ?recs)]\<rparr>"
  let ?ops = "[CreateCollection ''X'',
      Commit \<lparr>pending = [(0, ''b'', ''2''), (0, ''a'', ''1''), (0, ''d'', ''4'')]\<rparr>]"
  let ?it = "Iterator [(''b'', ''2''), (''d'', ''4'')]"
  have db: "?db = fold perform ?ops empty_DB"
    by (simp only: example_db)
  have cur: "current ?db = (OK, Snapshot [?recs])"
    by (simp add: current_def)
  have it: "Reader_iterator (Snapshot [?recs]) 0 ''b'' = (OK, Some ?it)"
    by simp
  then have "Reader_iterator (Snapshot [?recs]) 0 ''b'' = (OK, Some ?it)
             \<or> DB_iterator ?db 0 ''b'' = (OK, Some ?it)"
    by (rule disjI1)
  from iteration_strictly_increasing [OF db cur this]
  have "sorted_wrt (<) (yielded ?it)"
    and "yielded ?it = filter (\<lambda>k'. ''b'' \<le> k') (map fst (snd (collections ?db ! 0)))"
    by blast+
  then have "sorted_wrt (<) (yielded ?it)" and "yielded ?it = [''b'', ''d'']"
    by simp_all
  with cur it show ?thesis by blast
qed

end
